theory Spec2Isabelle
  imports Complex_Main
begin

section \<open>Autoregressive decoding: \<^verbatim>\<open>generate\<close> of \<^verbatim>\<open>Homework/01/scripts/generation.py\<close>\<close>

text \<open>
  The source is one function, \<^verbatim>\<open>generate(model, tokenizer, temperature, top_k, max_length)\<close>.
  Its collaborators are parameters of the embedding:
  \<^item> the model is a function from the input token ids and the recurrent state to the
    per-position score vectors and the next recurrent state (the batch dimension is fixed
    to one, as the source builds every input with a batch of one);
  \<^item> the tokenizer is a record of its two reserved ids and its \<^verbatim>\<open>decode\<close>;
  \<^item> NumPy's global random generator is a sequence \<open>rng\<close> of uniform draws, the
    \<open>n\<close>-th call of \<^verbatim>\<open>np.random.choice\<close> reading \<open>rng n\<close>.
  Scores and probabilities are real numbers: rounding, overflow and NaN of the
  floating-point tensors are outside the embedding. The call \<^verbatim>\<open>model.eval()\<close> before the
  loop only switches the mode of the model; it is not a call of the model on tokens and
  has no counterpart in the embedding.
\<close>

subsection \<open>Errors\<close>

text \<open>The exceptions the body of \<^verbatim>\<open>generate\<close> can raise through the library calls it makes.\<close>

datatype error = IndexError | ValueError

subsection \<open>Collaborators\<close>

record tokenizer =
  bos_token_id :: int
  eos_token_id :: int
  decode :: "int list \<Rightarrow> string"

type_synonym 'h model = "int list \<Rightarrow> 'h option \<Rightarrow> real list list \<times> 'h option"

subsection \<open>Library operations used by the loop body\<close>

text \<open>\<^verbatim>\<open>logits[:, -1, :]\<close>: the score vector of the last position; indexing an empty
  position axis raises.\<close>

definition last_position :: "real list list \<Rightarrow> error + real list" where
  "last_position logits = (if logits = [] then Inl IndexError else Inr (last logits))"

text \<open>\<^verbatim>\<open>torch.argmax(logits, dim=-1).item()\<close>: the index of the maximal value, the first
  one when several are maximal; an empty axis raises.\<close>

definition argmax :: "real list \<Rightarrow> error + nat" where
  "argmax xs =
     (if xs = [] then Inl IndexError
      else Inr (length (takeWhile (\<lambda>x. x < Max (set xs)) xs)))"

text \<open>\<^verbatim>\<open>F.softmax(logits, dim=-1)\<close>.\<close>

definition softmax :: "real list \<Rightarrow> real list" where
  "softmax xs = map (\<lambda>x. exp x / (\<Sum>y\<leftarrow>xs. exp y)) xs"

text \<open>\<^verbatim>\<open>np.argsort(a)\<close>: the indices that sort \<open>a\<close> in ascending order. NumPy leaves the
  order of equal elements open; the embedding keeps them in index order.\<close>

definition argsort :: "real list \<Rightarrow> nat list" where
  "argsort a = sort_key (\<lambda>i. a ! i) [0..<length a]"

text \<open>\<^verbatim>\<open>np.argpartition(a, kth)\<close>: raises when \<open>kth\<close> is outside \<open>[-n, n)\<close>; otherwise a
  permutation of the indices with the element of rank \<open>kth\<close> in its sorted place, smaller
  elements before it and larger ones after it. A fully sorted order is one such
  permutation, and the one the embedding returns.\<close>

definition argpartition :: "real list \<Rightarrow> int \<Rightarrow> error + nat list" where
  "argpartition a kth =
     (let n = int (length a) in
      if kth < - n \<or> n \<le> kth then Inl ValueError else Inr (argsort a))"

text \<open>The slice \<^verbatim>\<open>xs[start:]\<close>: a negative start counts from the end, and a start outside
  the list is clipped.\<close>

definition slice_from :: "'a list \<Rightarrow> int \<Rightarrow> 'a list" where
  "slice_from xs start =
     (let n = int (length xs) in
      if start < 0 then drop (nat (max (n + start) 0)) xs else drop (nat start) xs)"

text \<open>\<^verbatim>\<open>a[idx]\<close> for an array of indices \<open>idx\<close>.\<close>

definition index_by :: "'a list \<Rightarrow> nat list \<Rightarrow> 'a list" where
  "index_by a idx = map (\<lambda>i. a ! i) idx"

text \<open>\<^verbatim>\<open>p.cumsum()\<close>.\<close>

fun cumsum_from :: "real \<Rightarrow> real list \<Rightarrow> real list" where
  "cumsum_from acc [] = []"
| "cumsum_from acc (x # xs) = (acc + x) # cumsum_from (acc + x) xs"

definition cumsum :: "real list \<Rightarrow> real list" where
  "cumsum xs = cumsum_from 0 xs"

text \<open>\<^verbatim>\<open>cdf.searchsorted(u, side='right')\<close> on an ascending \<open>cdf\<close>: the number of leading
  entries that are at most \<open>u\<close>.\<close>

definition searchsorted_right :: "real list \<Rightarrow> real \<Rightarrow> nat" where
  "searchsorted_right cdf u = length (takeWhile (\<lambda>c. c \<le> u) cdf)"

text \<open>\<^verbatim>\<open>np.random.choice(a, p=p)\<close> for one sample, on the uniform draw \<open>u\<close> it reads: the
  checks of its arguments (a non-empty population, one probability per element, none
  negative, a sum within \<open>sqrt eps = 2^-26\<close> of one), then inversion of the normalised
  cumulative distribution.\<close>

definition choice :: "real \<Rightarrow> nat list \<Rightarrow> real list \<Rightarrow> error + nat" where
  "choice u a p =
     (if a = [] then Inl ValueError
      else if length p \<noteq> length a then Inl ValueError
      else if \<exists>x \<in> set p. x < 0 then Inl ValueError
      else if 1 / 2 ^ 26 < \<bar>sum_list p - 1\<bar> then Inl ValueError
      else
        let cdf = cumsum p;
            cdf = map (\<lambda>c. c / last cdf) cdf;
            idx = searchsorted_right cdf u
        in if idx < length a then Inr (a ! idx) else Inl IndexError)"

subsection \<open>The selection policy (lines 75 to 91)\<close>

text \<open>The result is the chosen token id and whether the random generator was read.\<close>

definition select :: "bool \<Rightarrow> real \<Rightarrow> int option \<Rightarrow> real \<Rightarrow> real list \<Rightarrow> error + int \<times> bool" where
  "select do_sample temperature top_k u logits =
     (if \<not> do_sample then
        (case argmax logits of
           Inl e \<Rightarrow> Inl e
         | Inr i \<Rightarrow> Inr (int i, False))
      else
        let logits = map (\<lambda>x. x / temperature) logits;
            p = softmax logits;
            ids = [0..<length p]
        in
          (case top_k of
             Some k \<Rightarrow>
               (case argpartition p (- k) of
                  Inl e \<Rightarrow> Inl e
                | Inr part \<Rightarrow>
                    let top_k_ids = slice_from part (- k);
                        top_k_ids = index_by top_k_ids (argsort (map uminus (index_by p top_k_ids)));
                        p = map (\<lambda>x. x / sum_list (index_by p top_k_ids)) (index_by p top_k_ids)
                    in
                      (case choice u top_k_ids p of
                         Inl e \<Rightarrow> Inl e
                       | Inr t \<Rightarrow> Inr (int t, True)))
           | None \<Rightarrow>
               (case choice u ids p of
                  Inl e \<Rightarrow> Inl e
                | Inr t \<Rightarrow> Inr (int t, True))))"

subsection \<open>The loop (lines 61 to 96)\<close>

text \<open>
  The variables of the function that live across iterations are \<open>gen_ids\<close>, \<open>hx\<close>,
  \<open>tokens\<close> and \<open>new_token\<close> (unbound before the first iteration). Two more fields
  observe the run without influencing it: \<open>calls\<close> is the log of the arguments of every
  call of the model, in order, and \<open>draws\<close> counts the reads of the random generator by
  the selections that returned.
\<close>

record 'h loop_state =
  gen_ids :: "int list"
  hx :: "'h option"
  tokens :: "int list"
  new_token :: "int option"
  calls :: "(int list \<times> 'h option) list"
  draws :: nat

datatype 'h outcome = Break "'h loop_state" | Continue "'h loop_state"

text \<open>An exception leaves the function with the state it was raised in.\<close>

type_synonym 'h failure = "error \<times> 'h loop_state"

text \<open>One iteration of the \<^verbatim>\<open>while\<close> body: lines 68 to 96.\<close>

definition body ::
  "'h model \<Rightarrow> tokenizer \<Rightarrow> bool \<Rightarrow> real \<Rightarrow> int option \<Rightarrow> (nat \<Rightarrow> real) \<Rightarrow>
   'h loop_state \<Rightarrow> 'h failure + 'h outcome" where
  "body model tokenizer do_sample temperature top_k rng s =
     (case model (tokens s) (hx s) of
        (logits, hx') \<Rightarrow>
          let s1 = s\<lparr>hx := hx', calls := calls s @ [(tokens s, hx s)]\<rparr> in
          (case last_position logits of
             Inl e \<Rightarrow> Inl (e, s1)
           | Inr logits \<Rightarrow>
               (case select do_sample temperature top_k (rng (draws s)) logits of
                  Inl e \<Rightarrow> Inl (e, s1)
                | Inr (t, used) \<Rightarrow>
                    let s2 = s1\<lparr>new_token := Some t,
                                draws := (if used then Suc (draws s) else draws s)\<rparr>
                    in
                      if t = eos_token_id tokenizer then Inr (Break s2)
                      else Inr (Continue (s2\<lparr>gen_ids := gen_ids s @ [t], tokens := [t]\<rparr>)))))"

text \<open>The \<^verbatim>\<open>while len(gen_ids) < max_length\<close> loop.\<close>

function generate_loop ::
  "'h model \<Rightarrow> tokenizer \<Rightarrow> bool \<Rightarrow> real \<Rightarrow> int option \<Rightarrow> int \<Rightarrow> (nat \<Rightarrow> real) \<Rightarrow>
   'h loop_state \<Rightarrow> 'h failure + 'h loop_state" where
  "generate_loop model tokenizer do_sample temperature top_k max_length rng s =
     (if int (length (gen_ids s)) < max_length then
        (case body model tokenizer do_sample temperature top_k rng s of
           Inl e \<Rightarrow> Inl e
         | Inr (Break s') \<Rightarrow> Inr s'
         | Inr (Continue s') \<Rightarrow>
             generate_loop model tokenizer do_sample temperature top_k max_length rng s')
      else Inr s)"
  by pat_completeness auto
termination
proof (relation "measure (\<lambda>(model, tokenizer, do_sample, temperature, top_k, max_length, rng, s).
          nat (max_length - int (length (gen_ids s))))", goal_cases)
  case 1
  show ?case by simp
next
  case (2 model tokenizer do_sample temperature top_k max_length rng s r s')
  from 2(2,3) have "length (gen_ids s') = Suc (length (gen_ids s))"
    by (auto simp: body_def Let_def split: prod.splits sum.splits if_splits)
  with 2(1) show ?case by simp
qed

subsection \<open>The function\<close>

definition init_state :: "tokenizer \<Rightarrow> 'h loop_state" where
  "init_state tokenizer =
     \<lparr>gen_ids = [], hx = None, tokens = [bos_token_id tokenizer], new_token = None,
      calls = [], draws = 0\<rparr>"

text \<open>The state in which the loop ends, or the exception that ended it.\<close>

definition generate_run ::
  "'h model \<Rightarrow> tokenizer \<Rightarrow> real \<Rightarrow> int option \<Rightarrow> int \<Rightarrow> (nat \<Rightarrow> real) \<Rightarrow>
   'h failure + 'h loop_state" where
  "generate_run model tokenizer temperature top_k max_length rng =
     (let do_sample = temperature > 0 in
      generate_loop model tokenizer do_sample temperature top_k max_length rng
        (init_state tokenizer))"

definition generate ::
  "'h model \<Rightarrow> tokenizer \<Rightarrow> real \<Rightarrow> int option \<Rightarrow> int \<Rightarrow> (nat \<Rightarrow> real) \<Rightarrow> error + string" where
  "generate model tokenizer temperature top_k max_length rng =
     (case generate_run model tokenizer temperature top_k max_length rng of
        Inl (e, s) \<Rightarrow> Inl e
      | Inr s \<Rightarrow> Inr (decode tokenizer (gen_ids s)))"

subsection \<open>Observations of a run\<close>

text \<open>The state a run ends in, returned or raised.\<close>

definition final_state :: "'h failure + 'h loop_state \<Rightarrow> 'h loop_state" where
  "final_state r = (case r of Inl (e, s) \<Rightarrow> s | Inr s \<Rightarrow> s)"

text \<open>What the model answers to a logged call: the score vector of its last position,
  and its recurrent state.\<close>

definition step_logits :: "'h model \<Rightarrow> int list \<times> 'h option \<Rightarrow> real list" where
  "step_logits model c = last (fst (model (fst c) (snd c)))"

definition step_state :: "'h model \<Rightarrow> int list \<times> 'h option \<Rightarrow> 'h option" where
  "step_state model c = snd (model (fst c) (snd c))"

text \<open>The ids the selection policy chose, one per completed selection: the emitted ids,
  followed by the end-of-sequence id when the loop stopped on it.\<close>

definition sampled :: "tokenizer \<Rightarrow> 'h loop_state \<Rightarrow> int list" where
  "sampled tokenizer s =
     (if new_token s = Some (eos_token_id tokenizer) then gen_ids s @ [eos_token_id tokenizer]
      else gen_ids s)"

text \<open>The state after the model call and the selection of \<open>t\<close>, before line 93.\<close>

definition advance :: "'h model \<Rightarrow> bool \<Rightarrow> int \<Rightarrow> 'h loop_state \<Rightarrow> 'h loop_state" where
  "advance model ds t s =
     s\<lparr>hx := step_state model (tokens s, hx s),
       calls := calls s @ [(tokens s, hx s)],
       new_token := Some t,
       draws := (if ds then Suc (draws s) else draws s)\<rparr>"

text \<open>The invariant of the loop, at the test of its guard.\<close>

definition loop_inv ::
  "'h model \<Rightarrow> tokenizer \<Rightarrow> bool \<Rightarrow> real \<Rightarrow> int option \<Rightarrow> int \<Rightarrow> (nat \<Rightarrow> real) \<Rightarrow>
   'h loop_state \<Rightarrow> bool" where
  "loop_inv model tok ds T k ml rng s \<longleftrightarrow>
     length (gen_ids s) = length (calls s)
   \<and> int (length (gen_ids s)) \<le> max 0 ml
   \<and> eos_token_id tok \<notin> set (gen_ids s)
   \<and> new_token s = (if gen_ids s = [] then None else Some (last (gen_ids s)))
   \<and> tokens s = [if gen_ids s = [] then bos_token_id tok else last (gen_ids s)]
   \<and> hx s = (if calls s = [] then None else step_state model (last (calls s)))
   \<and> draws s = (if ds then length (calls s) else 0)
   \<and> (\<forall>i<length (calls s). calls s ! i =
          (if i = 0 then ([bos_token_id tok], None)
           else ([gen_ids s ! (i - 1)], step_state model (calls s ! (i - 1)))))
   \<and> (\<forall>i<length (calls s). fst (model (fst (calls s ! i)) (snd (calls s ! i))) \<noteq> []
          \<and> select ds T k (rng (if ds then i else 0)) (step_logits model (calls s ! i))
              = Inr (gen_ids s ! i, ds))"

text \<open>The states in which a run tests the guard of its loop: the initial one, and the one
  every iteration that neither raises nor breaks leaves.\<close>

inductive visits ::
  "'h model \<Rightarrow> tokenizer \<Rightarrow> bool \<Rightarrow> real \<Rightarrow> int option \<Rightarrow> int \<Rightarrow> (nat \<Rightarrow> real) \<Rightarrow>
   'h loop_state \<Rightarrow> bool"
  for model tokenizer do_sample temperature top_k max_length rng where
  start: "visits model tokenizer do_sample temperature top_k max_length rng (init_state tokenizer)"
| step: "visits model tokenizer do_sample temperature top_k max_length rng s \<Longrightarrow>
         int (length (gen_ids s)) < max_length \<Longrightarrow>
         body model tokenizer do_sample temperature top_k rng s = Inr (Continue s') \<Longrightarrow>
         visits model tokenizer do_sample temperature top_k max_length rng s'"

text \<open>What holds of the state every run ends in.\<close>

definition run_trace ::
  "'h model \<Rightarrow> tokenizer \<Rightarrow> bool \<Rightarrow> real \<Rightarrow> int option \<Rightarrow> int \<Rightarrow> (nat \<Rightarrow> real) \<Rightarrow>
   'h loop_state \<Rightarrow> bool" where
  "run_trace model tok ds T k ml rng s \<longleftrightarrow>
     int (length (gen_ids s)) \<le> max 0 ml
   \<and> eos_token_id tok \<notin> set (gen_ids s)
   \<and> length (sampled tok s) \<le> length (calls s)
   \<and> length (calls s) \<le> Suc (length (sampled tok s))
   \<and> hx s = (if calls s = [] then None else step_state model (last (calls s)))
   \<and> draws s = (if ds then length (sampled tok s) else 0)
   \<and> (\<forall>i<length (calls s). calls s ! i =
          (if i = 0 then ([bos_token_id tok], None)
           else ([sampled tok s ! (i - 1)], step_state model (calls s ! (i - 1)))))
   \<and> (\<forall>i<length (sampled tok s). fst (model (fst (calls s ! i)) (snd (calls s ! i))) \<noteq> []
          \<and> select ds T k (rng (if ds then i else 0)) (step_logits model (calls s ! i))
              = Inr (sampled tok s ! i, ds))"

subsection \<open>A stub model and tokenizer\<close>

text \<open>
  The scenario of the specification's testable properties: a vocabulary of five ids,
  \<open>bos = 0\<close>, \<open>eos = 4\<close>, and a model that is a fixed table: fed the id \<open>t\<close>, its last
  position peaks at \<open>(t + 1) mod 5\<close>. It returns two positions, the first one flat, and
  counts its calls in the recurrent state.
\<close>

definition stub_decode :: "int list \<Rightarrow> string" where
  "stub_decode ids = map char_of ids"

definition stub_tokenizer :: tokenizer where
  "stub_tokenizer = \<lparr>bos_token_id = 0, eos_token_id = 4, decode = stub_decode\<rparr>"

definition stub_scores :: "int \<Rightarrow> real list" where
  "stub_scores t = map (\<lambda>j. if int j = (t + 1) mod 5 then 1 else 0) [0..<5]"

definition stub_model :: "nat model" where
  "stub_model toks h =
     ([replicate 5 0, stub_scores (last toks)],
      Some (case h of None \<Rightarrow> 0 | Some n \<Rightarrow> Suc n))"

definition stub_rng :: "nat \<Rightarrow> real" where
  "stub_rng n = 0"


subsection \<open>A stub for sampling\<close>



section \<open>The loop, step by step\<close>

subsection \<open>One iteration\<close>

lemma select_used: "select ds T k u l = Inr (t, used) \<Longrightarrow> used = ds"
  by (auto simp: select_def Let_def split: if_splits sum.splits option.splits)

lemma body_cases:
  "body model tok ds T k rng s =
     (let s1 = s\<lparr>hx := step_state model (tokens s, hx s), calls := calls s @ [(tokens s, hx s)]\<rparr> in
      if fst (model (tokens s) (hx s)) = [] then Inl (IndexError, s1)
      else case select ds T k (rng (draws s)) (step_logits model (tokens s, hx s)) of
             Inl e \<Rightarrow> Inl (e, s1)
           | Inr (t, used) \<Rightarrow>
               if t = eos_token_id tok then Inr (Break (advance model ds t s))
               else Inr (Continue ((advance model ds t s)\<lparr>gen_ids := gen_ids s @ [t], tokens := [t]\<rparr>)))"
  by (auto simp: body_def advance_def step_logits_def step_state_def last_position_def Let_def
      split: prod.splits sum.splits dest: select_used)

lemma body_Continue:
  assumes "body model tok ds T k rng s = Inr (Continue s')"
  obtains t where "fst (model (tokens s) (hx s)) \<noteq> []"
    and "select ds T k (rng (draws s)) (step_logits model (tokens s, hx s)) = Inr (t, ds)"
    and "t \<noteq> eos_token_id tok"
    and "s' = (advance model ds t s)\<lparr>gen_ids := gen_ids s @ [t], tokens := [t]\<rparr>"
  using assms unfolding body_cases
  by (auto simp: Let_def split: if_splits sum.splits prod.splits dest: select_used)

lemma body_Break:
  assumes "body model tok ds T k rng s = Inr (Break s')"
  shows "fst (model (tokens s) (hx s)) \<noteq> []"
    and "select ds T k (rng (draws s)) (step_logits model (tokens s, hx s)) = Inr (eos_token_id tok, ds)"
    and "s' = advance model ds (eos_token_id tok) s"
  using assms unfolding body_cases
  by (auto simp: Let_def split: if_splits sum.splits prod.splits dest: select_used)

lemma body_Inl:
  assumes "body model tok ds T k rng s = Inl (e, s')"
  shows "s' = s\<lparr>hx := step_state model (tokens s, hx s), calls := calls s @ [(tokens s, hx s)]\<rparr>"
    and "(fst (model (tokens s) (hx s)) = [] \<and> e = IndexError) \<or>
         (fst (model (tokens s) (hx s)) \<noteq> [] \<and>
          select ds T k (rng (draws s)) (step_logits model (tokens s, hx s)) = Inl e)"
  using assms unfolding body_cases
  by (auto simp: Let_def split: if_splits sum.splits prod.splits)


subsection \<open>Unfolding the loop\<close>

declare generate_loop.simps [simp del]

lemma loop_exit:
  "\<not> int (length (gen_ids s)) < ml \<Longrightarrow> generate_loop model tok ds T k ml rng s = Inr s"
  by (subst generate_loop.simps) simp

lemma loop_error:
  "int (length (gen_ids s)) < ml \<Longrightarrow> body model tok ds T k rng s = Inl e \<Longrightarrow>
   generate_loop model tok ds T k ml rng s = Inl e"
  by (subst generate_loop.simps) simp

lemma loop_break:
  "int (length (gen_ids s)) < ml \<Longrightarrow> body model tok ds T k rng s = Inr (Break s') \<Longrightarrow>
   generate_loop model tok ds T k ml rng s = Inr s'"
  by (subst generate_loop.simps) simp

lemma loop_continue:
  "int (length (gen_ids s)) < ml \<Longrightarrow> body model tok ds T k rng s = Inr (Continue s') \<Longrightarrow>
   generate_loop model tok ds T k ml rng s = generate_loop model tok ds T k ml rng s'"
  by (subst generate_loop.simps) simp

text \<open>The rule of the loop: a property kept by every iteration that continues holds of the
  state the last iteration starts in, or of the state whose guard fails.\<close>

lemma generate_loop_last:
  assumes "I s"
    and "\<And>s s'. I s \<Longrightarrow> int (length (gen_ids s)) < ml \<Longrightarrow>
                 body model tok ds T k rng s = Inr (Continue s') \<Longrightarrow> I s'"
  shows "\<exists>s0. I s0 \<and>
     (if int (length (gen_ids s0)) < ml
      then (case body model tok ds T k rng s0 of
              Inl f \<Rightarrow> generate_loop model tok ds T k ml rng s = Inl f
            | Inr (Break s') \<Rightarrow> generate_loop model tok ds T k ml rng s = Inr s'
            | Inr (Continue s') \<Rightarrow> False)
      else generate_loop model tok ds T k ml rng s = Inr s0)"
  using assms
proof (induction model tok ds T k ml rng s rule: generate_loop.induct)
  case (1 model tok ds T k ml rng s)
  note inv = "1.prems"(1) and pres = "1.prems"(2)
  show ?case
  proof (cases "int (length (gen_ids s)) < ml")
    case False
    with inv show ?thesis by (auto simp: loop_exit)
  next
    case guard: True
    show ?thesis
    proof (cases "body model tok ds T k rng s")
      case (Inl f)
      with guard inv show ?thesis by (auto simp: loop_error intro!: exI [of _ s])
    next
      case (Inr out)
      show ?thesis
      proof (cases out)
        case (Break s1)
        with Inr guard inv show ?thesis by (auto simp: loop_break intro!: exI [of _ s])
      next
        case (Continue s1)
        with Inr have b: "body model tok ds T k rng s = Inr (Continue s1)" by simp
        have "I s1" by (rule pres [OF inv guard b])
        then show ?thesis
          unfolding loop_continue [OF guard b]
          by (rule "1.IH" [OF guard Inr Continue _ pres])
      qed
    qed
  qed
qed

subsection \<open>The invariant\<close>

lemma loop_inv_init: "loop_inv model tok ds T k ml rng (init_state tok)"
  by (simp add: loop_inv_def init_state_def)

lemma loop_invD:
  assumes "loop_inv model tok ds T k ml rng s"
  shows "length (gen_ids s) = length (calls s)"
    and "int (length (gen_ids s)) \<le> max 0 ml"
    and "eos_token_id tok \<notin> set (gen_ids s)"
    and "new_token s = (if gen_ids s = [] then None else Some (last (gen_ids s)))"
    and "tokens s = [if gen_ids s = [] then bos_token_id tok else last (gen_ids s)]"
    and "hx s = (if calls s = [] then None else step_state model (last (calls s)))"
    and "draws s = (if ds then length (calls s) else 0)"
    and "\<And>i. i < length (calls s) \<Longrightarrow> calls s ! i =
          (if i = 0 then ([bos_token_id tok], None)
           else ([gen_ids s ! (i - 1)], step_state model (calls s ! (i - 1))))"
    and "\<And>i. i < length (calls s) \<Longrightarrow> fst (model (fst (calls s ! i)) (snd (calls s ! i))) \<noteq> []"
    and "\<And>i. i < length (calls s) \<Longrightarrow>
          select ds T k (rng (if ds then i else 0)) (step_logits model (calls s ! i))
              = Inr (gen_ids s ! i, ds)"
  using assms unfolding loop_inv_def by blast+

lemma loop_inv_new_token:
  assumes "loop_inv model tok ds T k ml rng s"
  shows "new_token s \<noteq> Some (eos_token_id tok)"
proof (cases "gen_ids s = []")
  case True
  with loop_invD(4) [OF assms] show ?thesis by simp
next
  case False
  then have "last (gen_ids s) \<in> set (gen_ids s)" by simp
  with loop_invD(3) [OF assms] have "last (gen_ids s) \<noteq> eos_token_id tok" by metis
  with False loop_invD(4) [OF assms] show ?thesis by simp
qed

lemma loop_inv_sampled: "loop_inv model tok ds T k ml rng s \<Longrightarrow> sampled tok s = gen_ids s"
  by (simp add: sampled_def loop_inv_new_token)

lemma loop_inv_args:
  assumes inv: "loop_inv model tok ds T k ml rng s"
  shows "(tokens s, hx s) =
     (if calls s = [] then ([bos_token_id tok], None)
      else ([gen_ids s ! (length (calls s) - 1)],
            step_state model (calls s ! (length (calls s) - 1))))"
proof (cases "calls s = []")
  case True
  with loop_invD(1,5,6) [OF inv] show ?thesis by simp
next
  case False
  with loop_invD(1) [OF inv] have "gen_ids s \<noteq> []" by auto
  with False loop_invD(1,5,6) [OF inv] show ?thesis by (simp add: last_conv_nth)
qed

text \<open>The log of calls after one more call of the model keeps its shape.\<close>

lemma calls_chain_snoc:
  assumes inv: "loop_inv model tok ds T k ml rng s"
    and i: "i < Suc (length (calls s))"
  shows "(calls s @ [(tokens s, hx s)]) ! i =
          (if i = 0 then ([bos_token_id tok], None)
           else ([(gen_ids s @ ts) ! (i - 1)],
                 step_state model ((calls s @ [(tokens s, hx s)]) ! (i - 1))))"
proof (cases "i < length (calls s)")
  case True
  then have "i - 1 < length (calls s)" by simp
  with True loop_invD(8) [OF inv True] loop_invD(1) [OF inv] show ?thesis
    by (auto simp: nth_append)
next
  case False
  with i have "i = length (calls s)" by simp
  with loop_inv_args [OF inv] loop_invD(1) [OF inv] show ?thesis
    by (auto simp: nth_append)
qed

lemma select_trace_snoc:
  assumes inv: "loop_inv model tok ds T k ml rng s"
    and ne: "fst (model (tokens s) (hx s)) \<noteq> []"
    and sel: "select ds T k (rng (draws s)) (step_logits model (tokens s, hx s)) = Inr (t, ds)"
    and i: "i < Suc (length (calls s))"
  shows "fst (model (fst ((calls s @ [(tokens s, hx s)]) ! i))
                    (snd ((calls s @ [(tokens s, hx s)]) ! i))) \<noteq> []
          \<and> select ds T k (rng (if ds then i else 0))
               (step_logits model ((calls s @ [(tokens s, hx s)]) ! i))
              = Inr ((gen_ids s @ [t]) ! i, ds)"
proof (cases "i < length (calls s)")
  case True
  with loop_invD(9,10) [OF inv True] loop_invD(1) [OF inv] show ?thesis
    by (auto simp: nth_append)
next
  case False
  with i have "i = length (calls s)" by simp
  with ne sel loop_invD(7) [OF inv] loop_invD(1) [OF inv] show ?thesis
    by (auto simp: nth_append)
qed

lemma loop_inv_step:
  assumes inv: "loop_inv model tok ds T k ml rng s"
    and guard: "int (length (gen_ids s)) < ml"
    and b: "body model tok ds T k rng s = Inr (Continue s')"
  shows "loop_inv model tok ds T k ml rng s'"
proof -
  from b obtain t where ne: "fst (model (tokens s) (hx s)) \<noteq> []"
    and sel: "select ds T k (rng (draws s)) (step_logits model (tokens s, hx s)) = Inr (t, ds)"
    and t: "t \<noteq> eos_token_id tok"
    and s': "s' = (advance model ds t s)\<lparr>gen_ids := gen_ids s @ [t], tokens := [t]\<rparr>"
    by (rule body_Continue)
  note len = loop_invD(1) [OF inv] and dr = loop_invD(7) [OF inv]
  have c: "calls s' = calls s @ [(tokens s, hx s)]" and g: "gen_ids s' = gen_ids s @ [t]"
    by (simp_all add: s' advance_def)
  have 1: "length (gen_ids s') = length (calls s')" using len by (simp add: c g)
  have 2: "int (length (gen_ids s')) \<le> max 0 ml" using guard by (simp add: g)
  have 3: "eos_token_id tok \<notin> set (gen_ids s')" using loop_invD(3) [OF inv] t by (simp add: g)
  have 4: "new_token s' = (if gen_ids s' = [] then None else Some (last (gen_ids s')))"
    by (simp add: s' advance_def)
  have 5: "tokens s' = [if gen_ids s' = [] then bos_token_id tok else last (gen_ids s')]"
    by (simp add: s' advance_def)
  have 6: "hx s' = (if calls s' = [] then None else step_state model (last (calls s')))"
    by (simp add: s' advance_def)
  have 7: "draws s' = (if ds then length (calls s') else 0)"
    using dr by (simp add: s' advance_def)
  have 8: "\<forall>i<length (calls s'). calls s' ! i =
          (if i = 0 then ([bos_token_id tok], None)
           else ([gen_ids s' ! (i - 1)], step_state model (calls s' ! (i - 1))))"
    unfolding c g using calls_chain_snoc [OF inv] by simp
  have 9: "\<forall>i<length (calls s'). fst (model (fst (calls s' ! i)) (snd (calls s' ! i))) \<noteq> []
          \<and> select ds T k (rng (if ds then i else 0)) (step_logits model (calls s' ! i))
              = Inr (gen_ids s' ! i, ds)"
    unfolding c g using select_trace_snoc [OF inv ne sel] by simp
  from 1 2 3 4 5 6 7 8 9 show ?thesis unfolding loop_inv_def by blast
qed

subsection \<open>The state a run ends in\<close>

lemma run_traceD:
  assumes "run_trace model tok ds T k ml rng s"
  shows "int (length (gen_ids s)) \<le> max 0 ml"
    and "eos_token_id tok \<notin> set (gen_ids s)"
    and "length (sampled tok s) \<le> length (calls s)"
    and "length (calls s) \<le> Suc (length (sampled tok s))"
    and "hx s = (if calls s = [] then None else step_state model (last (calls s)))"
    and "draws s = (if ds then length (sampled tok s) else 0)"
    and "\<And>i. i < length (calls s) \<Longrightarrow> calls s ! i =
          (if i = 0 then ([bos_token_id tok], None)
           else ([sampled tok s ! (i - 1)], step_state model (calls s ! (i - 1))))"
    and "\<And>i. i < length (sampled tok s) \<Longrightarrow>
          fst (model (fst (calls s ! i)) (snd (calls s ! i))) \<noteq> []"
    and "\<And>i. i < length (sampled tok s) \<Longrightarrow>
          select ds T k (rng (if ds then i else 0)) (step_logits model (calls s ! i))
              = Inr (sampled tok s ! i, ds)"
  using assms unfolding run_trace_def by blast+

lemma loop_inv_exit:
  assumes inv: "loop_inv model tok ds T k ml rng s"
  shows "run_trace model tok ds T k ml rng s"
  unfolding run_trace_def loop_inv_sampled [OF inv]
  using loop_invD [OF inv] by simp

lemma loop_inv_break:
  assumes inv: "loop_inv model tok ds T k ml rng s"
    and guard: "int (length (gen_ids s)) < ml"
    and b: "body model tok ds T k rng s = Inr (Break s')"
  shows "run_trace model tok ds T k ml rng s'"
    and "length (calls s') = length (sampled tok s')"
    and "new_token s' = Some (eos_token_id tok)"
    and "int (length (gen_ids s')) < ml"
proof -
  let ?e = "eos_token_id tok"
  note ne = body_Break(1) [OF b] and sel = body_Break(2) [OF b] and s' = body_Break(3) [OF b]
  note len = loop_invD(1) [OF inv] and dr = loop_invD(7) [OF inv]
  have c: "calls s' = calls s @ [(tokens s, hx s)]" and g: "gen_ids s' = gen_ids s"
    and n: "new_token s' = Some ?e"
    by (simp_all add: s' advance_def)
  have sm: "sampled tok s' = gen_ids s @ [?e]" by (simp add: sampled_def n g)
  show "length (calls s') = length (sampled tok s')" using len by (simp add: c sm)
  show "new_token s' = Some ?e" by (rule n)
  show "int (length (gen_ids s')) < ml" using guard by (simp add: g)
  have 2: "int (length (gen_ids s')) \<le> max 0 ml" using guard by (simp add: g)
  have 3: "?e \<notin> set (gen_ids s')" using loop_invD(3) [OF inv] by (simp add: g)
  have 4: "length (sampled tok s') \<le> length (calls s')"
    "length (calls s') \<le> Suc (length (sampled tok s'))" using len by (simp_all add: c sm)
  have 6: "hx s' = (if calls s' = [] then None else step_state model (last (calls s')))"
    by (simp add: s' advance_def)
  have d: "draws s' = (if ds then Suc (draws s) else draws s)" by (simp add: s' advance_def)
  have 7: "draws s' = (if ds then length (sampled tok s') else 0)"
    using dr len by (simp add: d sm)
  have 8: "\<forall>i<length (calls s'). calls s' ! i =
          (if i = 0 then ([bos_token_id tok], None)
           else ([sampled tok s' ! (i - 1)], step_state model (calls s' ! (i - 1))))"
    unfolding c sm using calls_chain_snoc [OF inv] by simp
  have 9: "\<forall>i<length (sampled tok s'). fst (model (fst (calls s' ! i)) (snd (calls s' ! i))) \<noteq> []
          \<and> select ds T k (rng (if ds then i else 0)) (step_logits model (calls s' ! i))
              = Inr (sampled tok s' ! i, ds)"
    unfolding c sm using select_trace_snoc [OF inv ne sel] len by simp
  from 2 3 4 6 7 8 9 show "run_trace model tok ds T k ml rng s'"
    unfolding run_trace_def by blast
qed

lemma loop_inv_fail:
  assumes inv: "loop_inv model tok ds T k ml rng s"
    and guard: "int (length (gen_ids s)) < ml"
    and b: "body model tok ds T k rng s = Inl (e, s')"
  shows "run_trace model tok ds T k ml rng s'"
    and "length (calls s') = Suc (length (gen_ids s'))"
    and "sampled tok s' = gen_ids s'"
    and "int (length (gen_ids s')) < ml"
    and "(fst (model (fst (last (calls s'))) (snd (last (calls s')))) = [] \<and> e = IndexError) \<or>
         (fst (model (fst (last (calls s'))) (snd (last (calls s')))) \<noteq> [] \<and>
          select ds T k (rng (if ds then length (gen_ids s') else 0))
            (step_logits model (last (calls s'))) = Inl e)"
proof -
  note s' = body_Inl(1) [OF b] and why = body_Inl(2) [OF b]
  note len = loop_invD(1) [OF inv] and dr = loop_invD(7) [OF inv]
  have c: "calls s' = calls s @ [(tokens s, hx s)]" and g: "gen_ids s' = gen_ids s"
    and n: "new_token s' = new_token s" and d: "draws s' = draws s"
    by (simp_all add: s')
  show sm: "sampled tok s' = gen_ids s'"
    using loop_inv_new_token [OF inv] by (simp add: sampled_def n g)
  show "length (calls s') = Suc (length (gen_ids s'))" using len by (simp add: c g)
  show "int (length (gen_ids s')) < ml" using guard by (simp add: g)
  show "(fst (model (fst (last (calls s'))) (snd (last (calls s')))) = [] \<and> e = IndexError) \<or>
         (fst (model (fst (last (calls s'))) (snd (last (calls s')))) \<noteq> [] \<and>
          select ds T k (rng (if ds then length (gen_ids s') else 0))
            (step_logits model (last (calls s'))) = Inl e)"
    using why dr len by (auto simp: c g)
  have 2: "int (length (gen_ids s')) \<le> max 0 ml" using guard by (simp add: g)
  have 3: "eos_token_id tok \<notin> set (gen_ids s')" using loop_invD(3) [OF inv] by (simp add: g)
  have 4: "length (sampled tok s') \<le> length (calls s')"
    "length (calls s') \<le> Suc (length (sampled tok s'))" using len by (simp_all add: c sm g)
  have 6: "hx s' = (if calls s' = [] then None else step_state model (last (calls s')))"
    by (simp add: s')
  have 7: "draws s' = (if ds then length (sampled tok s') else 0)"
    using dr len by (simp add: sm g d)
  have 8: "\<forall>i<length (calls s'). calls s' ! i =
          (if i = 0 then ([bos_token_id tok], None)
           else ([sampled tok s' ! (i - 1)], step_state model (calls s' ! (i - 1))))"
    unfolding c sm g using calls_chain_snoc [OF inv, where ts = "[]"] by simp
  have 9: "\<forall>i<length (sampled tok s'). fst (model (fst (calls s' ! i)) (snd (calls s' ! i))) \<noteq> []
          \<and> select ds T k (rng (if ds then i else 0)) (step_logits model (calls s' ! i))
              = Inr (sampled tok s' ! i, ds)"
    unfolding c sm g using loop_invD(9,10) [OF inv] len by (simp add: nth_append)
  from 2 3 4 6 7 8 9 show "run_trace model tok ds T k ml rng s'"
    unfolding run_trace_def by blast
qed

lemma generate_run_cases:
  fixes model :: "'h model"
  obtains (exhausted) s where "generate_run model tok T k ml rng = Inr s"
      and "loop_inv model tok (0 < T) T k ml rng s" and "\<not> int (length (gen_ids s)) < ml"
  | (stopped) s0 s where "generate_run model tok T k ml rng = Inr s"
      and "loop_inv model tok (0 < T) T k ml rng s0" and "int (length (gen_ids s0)) < ml"
      and "body model tok (0 < T) T k rng s0 = Inr (Break s)"
  | (failed) s0 e s where "generate_run model tok T k ml rng = Inl (e, s)"
      and "loop_inv model tok (0 < T) T k ml rng s0" and "int (length (gen_ids s0)) < ml"
      and "body model tok (0 < T) T k rng s0 = Inl (e, s)"
proof -
  let ?I = "loop_inv model tok (0 < T) T k ml rng"
  have "\<exists>s0. ?I s0 \<and>
     (if int (length (gen_ids s0)) < ml
      then (case body model tok (0 < T) T k rng s0 of
              Inl f \<Rightarrow> generate_loop model tok (0 < T) T k ml rng (init_state tok) = Inl f
            | Inr (Break s') \<Rightarrow> generate_loop model tok (0 < T) T k ml rng (init_state tok) = Inr s'
            | Inr (Continue s') \<Rightarrow> False)
      else generate_loop model tok (0 < T) T k ml rng (init_state tok) = Inr s0)"
    by (rule generate_loop_last [where I = ?I, OF loop_inv_init loop_inv_step])
  then obtain s0 where inv: "?I s0"
    and fin: "if int (length (gen_ids s0)) < ml
      then (case body model tok (0 < T) T k rng s0 of
              Inl f \<Rightarrow> generate_run model tok T k ml rng = Inl f
            | Inr (Break s') \<Rightarrow> generate_run model tok T k ml rng = Inr s'
            | Inr (Continue s') \<Rightarrow> False)
      else generate_run model tok T k ml rng = Inr s0"
    unfolding generate_run_def Let_def by blast
  show thesis
  proof (cases "int (length (gen_ids s0)) < ml")
    case False
    with fin inv show thesis by (auto intro: exhausted)
  next
    case guard: True
    show thesis
    proof (cases "body model tok (0 < T) T k rng s0")
      case (Inl f)
      obtain e s where f: "f = (e, s)" by (cases f)
      with Inl guard fin inv show thesis by (auto intro: failed)
    next
      case (Inr out)
      with guard fin inv show thesis by (cases out) (auto intro: stopped)
    qed
  qed
qed

text \<open>Every run, returned or raised, ends in a state whose trace is the run's.\<close>

lemma generate_run_trace:
  "run_trace model tok (0 < T) T k ml rng (final_state (generate_run model tok T k ml rng))"
proof (cases rule: generate_run_cases [of model tok T k ml rng])
  case (exhausted s)
  then show ?thesis by (simp add: final_state_def loop_inv_exit)
next
  case (stopped s0 s)
  then show ?thesis by (simp add: final_state_def loop_inv_break(1))
next
  case (failed s0 e s)
  then show ?thesis by (simp add: final_state_def loop_inv_fail(1))
qed

lemma generate_run_Inr:
  assumes "generate_run model tok T k ml rng = Inr s"
  shows "length (calls s) = length (sampled tok s)"
    and "if new_token s = Some (eos_token_id tok) then int (length (gen_ids s)) < ml
         else \<not> int (length (gen_ids s)) < ml"
proof -
  have "length (calls s) = length (sampled tok s) \<and>
    (if new_token s = Some (eos_token_id tok) then int (length (gen_ids s)) < ml
         else \<not> int (length (gen_ids s)) < ml)"
  proof (cases rule: generate_run_cases [of model tok T k ml rng])
    case (exhausted s1)
    with assms have "s1 = s" by simp
    with exhausted(2,3) loop_inv_sampled [OF exhausted(2)] loop_inv_new_token [OF exhausted(2)]
      loop_invD(1) [OF exhausted(2)]
    show ?thesis by simp
  next
    case (stopped s0 s1)
    with assms have "s1 = s" by simp
    with loop_inv_break(2,3,4) [OF stopped(2,3,4)] show ?thesis by simp
  next
    case (failed s0 e s1)
    with assms show ?thesis by simp
  qed
  then show "length (calls s) = length (sampled tok s)"
    and "if new_token s = Some (eos_token_id tok) then int (length (gen_ids s)) < ml
         else \<not> int (length (gen_ids s)) < ml" by blast+
qed


subsection \<open>Runs that take the same steps\<close>

lemma generate_loop_cong:
  assumes "\<And>s. body model tok ds T k rng s = body model' tok ds' T' k' rng' s"
  shows "generate_loop model tok ds T k ml rng s = generate_loop model' tok ds' T' k' ml rng' s"
  using assms
proof (induction model tok ds T k ml rng s rule: generate_loop.induct)
  case (1 model tok ds T k ml rng s)
  note same = "1.prems"
  show ?case
  proof (cases "int (length (gen_ids s)) < ml")
    case False
    then show ?thesis by (simp add: loop_exit)
  next
    case guard: True
    show ?thesis
    proof (cases "body model tok ds T k rng s")
      case (Inl f)
      with same [of s] have "body model' tok ds' T' k' rng' s = Inl f" by simp
      with Inl guard show ?thesis by (simp add: loop_error)
    next
      case (Inr out)
      show ?thesis
      proof (cases out)
        case (Break s1)
        with Inr have b: "body model tok ds T k rng s = Inr (Break s1)" by simp
        with same [of s] have "body model' tok ds' T' k' rng' s = Inr (Break s1)" by simp
        with b guard show ?thesis by (simp add: loop_break)
      next
        case (Continue s1)
        with Inr have b: "body model tok ds T k rng s = Inr (Continue s1)" by simp
        with same [of s] have b': "body model' tok ds' T' k' rng' s = Inr (Continue s1)" by simp
        show ?thesis
          unfolding loop_continue [OF guard b] loop_continue [OF guard b']
          by (rule "1.IH" [OF guard Inr Continue same])
      qed
    qed
  qed
qed

lemma select_False: "select False T k u l = select False T' k' u' l"
  by (simp add: select_def)

lemma body_greedy:
  "body model tok False T k rng s = body model tok False T' k' rng' s"
  unfolding body_cases select_False [of T k "rng (draws s)" _ T' k' "rng' (draws s)"] ..

lemma generate_run_greedy:
  assumes "T \<le> 0" and "T' \<le> 0"
  shows "generate_run model tok T k ml rng = generate_run model tok T' k' ml rng'"
  using assms by (simp add: generate_run_def generate_loop_cong [OF body_greedy])

subsection \<open>The states a run passes through\<close>

lemma visits_loop_inv:
  "visits model tok ds T k ml rng s \<Longrightarrow> loop_inv model tok ds T k ml rng s"
  by (induction rule: visits.induct) (auto intro: loop_inv_init loop_inv_step)

lemma visits_loop:
  "visits model tok ds T k ml rng s \<Longrightarrow>
   generate_loop model tok ds T k ml rng (init_state tok) = generate_loop model tok ds T k ml rng s"
  by (induction rule: visits.induct) (simp_all add: loop_continue)

subsection \<open>The arg-max\<close>



subsection \<open>The softmax is a probability distribution\<close>

lemma length_softmax [simp]: "length (softmax xs) = length xs"
  by (simp add: softmax_def)









subsection \<open>Sorting indices\<close>




subsection \<open>Drawing by inversion of the cumulative distribution\<close>

lemma length_cumsum_from [simp]: "length (cumsum_from acc xs) = length xs"
  by (induction xs arbitrary: acc) simp_all








subsection \<open>The sampling branch of the selection policy\<close>














section \<open>Runs of the stubs\<close>

lemma stub_scores_simps:
  "stub_scores 0 = [0, 1, 0, 0, 0]" "stub_scores 1 = [0, 0, 1, 0, 0]"
  "stub_scores 2 = [0, 0, 0, 1, 0]" "stub_scores 3 = [0, 0, 0, 0, 1]"
  by (simp_all add: stub_scores_def upt_rec)

lemma stub_tokenizer_simps:
  "bos_token_id stub_tokenizer = 0" "eos_token_id stub_tokenizer = 4"
  "decode stub_tokenizer = stub_decode"
  by (simp_all add: stub_tokenizer_def)

lemma stub_greedy_run:
  "generate_run stub_model stub_tokenizer 0 None 10 stub_rng =
     Inr \<lparr>gen_ids = [1, 2, 3], hx = Some 3, tokens = [3], new_token = Some 4,
          calls = [([0], None), ([1], Some 0), ([2], Some 1), ([3], Some 2)], draws = 0\<rparr>"
  by (simp add: generate_run_def generate_loop.simps body_def stub_model_def stub_tokenizer_def
      init_state_def last_position_def select_def argmax_def stub_scores_simps)

lemma stub_greedy_capped:
  "generate_run stub_model stub_tokenizer 0 None 2 stub_rng =
     Inr \<lparr>gen_ids = [1, 2], hx = Some 1, tokens = [2], new_token = Some 2,
          calls = [([0], None), ([1], Some 0)], draws = 0\<rparr>"
  by (simp add: generate_run_def generate_loop.simps body_def stub_model_def stub_tokenizer_def
      init_state_def last_position_def select_def argmax_def stub_scores_simps)


lemma stub_body_steps:
  "body stub_model stub_tokenizer False 0 None stub_rng (init_state stub_tokenizer)
     = Inr (Continue \<lparr>gen_ids = [1], hx = Some 0, tokens = [1], new_token = Some 1,
                       calls = [([0], None)], draws = 0\<rparr>)"
  "body stub_model stub_tokenizer False 0 None stub_rng
       \<lparr>gen_ids = [1], hx = Some 0, tokens = [1], new_token = Some 1,
        calls = [([0], None)], draws = 0\<rparr>
     = Inr (Continue \<lparr>gen_ids = [1, 2], hx = Some 1, tokens = [2], new_token = Some 2,
                       calls = [([0], None), ([1], Some 0)], draws = 0\<rparr>)"
  "body stub_model stub_tokenizer False 0 None stub_rng
       \<lparr>gen_ids = [1, 2], hx = Some 1, tokens = [2], new_token = Some 2,
        calls = [([0], None), ([1], Some 0)], draws = 0\<rparr>
     = Inr (Continue \<lparr>gen_ids = [1, 2, 3], hx = Some 2, tokens = [3], new_token = Some 3,
                       calls = [([0], None), ([1], Some 0), ([2], Some 1)], draws = 0\<rparr>)"
  by (simp_all add: body_def stub_model_def stub_tokenizer_def init_state_def last_position_def
      select_def argmax_def stub_scores_simps)

lemma stub_visits:
  "visits stub_model stub_tokenizer False 0 None 10 stub_rng
     \<lparr>gen_ids = [1, 2, 3], hx = Some 2, tokens = [3], new_token = Some 3,
      calls = [([0], None), ([1], Some 0), ([2], Some 1)], draws = 0\<rparr>"
proof -
  note v0 = visits.start [of stub_model stub_tokenizer False 0 None 10 stub_rng]
  have v1: "visits stub_model stub_tokenizer False 0 None 10 stub_rng
     \<lparr>gen_ids = [1], hx = Some 0, tokens = [1], new_token = Some 1,
      calls = [([0], None)], draws = 0\<rparr>"
    by (rule visits.step [OF v0 _ stub_body_steps(1)]) (simp add: init_state_def)
  have v2: "visits stub_model stub_tokenizer False 0 None 10 stub_rng
     \<lparr>gen_ids = [1, 2], hx = Some 1, tokens = [2], new_token = Some 2,
      calls = [([0], None), ([1], Some 0)], draws = 0\<rparr>"
    by (rule visits.step [OF v1 _ stub_body_steps(2)]) simp
  show ?thesis
    by (rule visits.step [OF v2 _ stub_body_steps(3)]) simp
qed













section \<open>Properties\<close>

subsection \<open>Greedy selection\<close>



subsection \<open>The sampling step\<close>




subsection \<open>The cap on the emitted ids\<close>

text \<open>
  Claim C3, with the cap read as \<open>max 0 max_length\<close>. In every state \<open>v\<close> in which a run
  tests the guard of its loop, and in the state \<open>s\<close> it ends in, the number of emitted ids
  is at most \<open>max 0 max_length\<close> and the end-of-sequence id is not among them. The loop
  ends the first time the guard fails or the chosen id is the end-of-sequence id: when the
  guard fails in \<open>v\<close> the run returns \<open>v\<close>; when the selection in \<open>v\<close> yields the
  end-of-sequence id the run returns with the emitted ids of \<open>v\<close>, nothing appended. A
  run that returns has emitted exactly \<open>max 0 max_length\<close> ids unless its last selection
  was the end-of-sequence id, and then fewer than \<open>max_length\<close>.
\<close>

theorem emitted_length_bounded:
  assumes "visits model tokenizer (0 < temperature) temperature top_k max_length rng v"
    and "s = final_state (generate_run model tokenizer temperature top_k max_length rng)"
  shows "int (length (gen_ids v)) \<le> max 0 max_length
       \<and> eos_token_id tokenizer \<notin> set (gen_ids v)
       \<and> int (length (gen_ids s)) \<le> max 0 max_length
       \<and> eos_token_id tokenizer \<notin> set (gen_ids s)
       \<and> (\<not> int (length (gen_ids v)) < max_length \<longrightarrow>
            generate_run model tokenizer temperature top_k max_length rng = Inr v)
       \<and> (int (length (gen_ids v)) < max_length
            \<and> fst (model (tokens v) (hx v)) \<noteq> []
            \<and> select (0 < temperature) temperature top_k (rng (draws v))
                 (step_logits model (tokens v, hx v)) = Inr (eos_token_id tokenizer, used) \<longrightarrow>
            (\<exists>s'. generate_run model tokenizer temperature top_k max_length rng = Inr s'
                 \<and> gen_ids s' = gen_ids v \<and> new_token s' = Some (eos_token_id tokenizer)))
       \<and> (generate_run model tokenizer temperature top_k max_length rng = Inr s \<longrightarrow>
            (if new_token s = Some (eos_token_id tokenizer)
             then int (length (gen_ids s)) < max_length
             else int (length (gen_ids s)) = max 0 max_length))"
proof -
  let ?ds = "0 < temperature"
  let ?run = "generate_run model tokenizer temperature top_k max_length rng"
  let ?e = "eos_token_id tokenizer"
  note inv = visits_loop_inv [OF assms(1)]
  have run: "?run = generate_loop model tokenizer ?ds temperature top_k max_length rng v"
    unfolding generate_run_def Let_def by (rule visits_loop [OF assms(1)])
  have tr: "run_trace model tokenizer ?ds temperature top_k max_length rng s"
    unfolding assms(2) by (rule generate_run_trace)
  have 1: "int (length (gen_ids v)) \<le> max 0 max_length" by (rule loop_invD(2) [OF inv])
  have 2: "?e \<notin> set (gen_ids v)" by (rule loop_invD(3) [OF inv])
  have 3: "int (length (gen_ids s)) \<le> max 0 max_length" by (rule run_traceD(1) [OF tr])
  have 4: "?e \<notin> set (gen_ids s)" by (rule run_traceD(2) [OF tr])
  have 5: "?run = Inr v" if "\<not> int (length (gen_ids v)) < max_length"
    unfolding run using that by (rule loop_exit)
  have 6: "\<exists>s'. ?run = Inr s' \<and> gen_ids s' = gen_ids v \<and> new_token s' = Some ?e"
    if guard: "int (length (gen_ids v)) < max_length"
      and ne: "fst (model (tokens v) (hx v)) \<noteq> []"
      and sel: "select ?ds temperature top_k (rng (draws v))
                 (step_logits model (tokens v, hx v)) = Inr (?e, used)"
  proof -
    from ne sel
    have b: "body model tokenizer ?ds temperature top_k rng v = Inr (Break (advance model ?ds ?e v))"
      by (simp add: body_cases)
    have "?run = Inr (advance model ?ds ?e v)"
      unfolding run by (rule loop_break [OF guard b])
    then show ?thesis by (simp add: advance_def)
  qed
  have 7: "if new_token s = Some ?e then int (length (gen_ids s)) < max_length
             else int (length (gen_ids s)) = max 0 max_length"
    if r: "?run = Inr s"
    using generate_run_Inr(2) [OF r] 3 by (auto split: if_splits)
  from 1 2 3 4 5 6 7 show ?thesis by blast
qed

theorem emitted_length_bounded_witness:
  "visits stub_model stub_tokenizer False 0 None 10 stub_rng
     \<lparr>gen_ids = [1, 2, 3], hx = Some 2, tokens = [3], new_token = Some 3,
      calls = [([0], None), ([1], Some 0), ([2], Some 1)], draws = 0\<rparr>
   \<and> int (length [1, 2, 3 :: int]) \<le> max 0 10
   \<and> eos_token_id stub_tokenizer \<notin> set [1, 2, 3]
   \<and> (\<exists>s'. generate_run stub_model stub_tokenizer 0 None 10 stub_rng = Inr s'
          \<and> gen_ids s' = [1, 2, 3] \<and> new_token s' = Some (eos_token_id stub_tokenizer))
   \<and> int (length (gen_ids (final_state (generate_run stub_model stub_tokenizer 0 None 10 stub_rng))))
        < 10
   \<and> int (length (gen_ids (final_state (generate_run stub_model stub_tokenizer 0 None 2 stub_rng))))
        = max 0 2"
proof -
  have v: "visits stub_model stub_tokenizer (0 < (0 :: real)) 0 None 10 stub_rng
     \<lparr>gen_ids = [1, 2, 3], hx = Some 2, tokens = [3], new_token = Some 3,
      calls = [([0], None), ([1], Some 0), ([2], Some 1)], draws = 0\<rparr>"
    using stub_visits by simp
  have sel: "select False 0 None (stub_rng 0) (step_logits stub_model ([3], Some 2))
      = Inr (eos_token_id stub_tokenizer, False)"
    by (simp add: select_def argmax_def step_logits_def stub_model_def stub_scores_simps
        stub_tokenizer_simps)
  have ne: "fst (stub_model [3] (Some 2)) \<noteq> []" by (simp add: stub_model_def)
  from emitted_length_bounded [OF v refl, where used = False] sel ne stub_visits
  have a: "visits stub_model stub_tokenizer False 0 None 10 stub_rng
     \<lparr>gen_ids = [1, 2, 3], hx = Some 2, tokens = [3], new_token = Some 3,
      calls = [([0], None), ([1], Some 0), ([2], Some 1)], draws = 0\<rparr>
   \<and> int (length [1, 2, 3 :: int]) \<le> max 0 10
   \<and> eos_token_id stub_tokenizer \<notin> set [1, 2, 3]
   \<and> (\<exists>s'. generate_run stub_model stub_tokenizer 0 None 10 stub_rng = Inr s'
          \<and> gen_ids s' = [1, 2, 3] \<and> new_token s' = Some (eos_token_id stub_tokenizer))
   \<and> int (length (gen_ids (final_state (generate_run stub_model stub_tokenizer 0 None 10 stub_rng))))
        < 10"
    by (simp add: stub_greedy_run final_state_def)
  have v0: "visits stub_model stub_tokenizer (0 < (0 :: real)) 0 None 2 stub_rng
      (init_state stub_tokenizer)" by (rule visits.start)
  from emitted_length_bounded [OF v0 refl, where used = False]
  have "int (length (gen_ids (final_state (generate_run stub_model stub_tokenizer 0 None 2 stub_rng))))
        = max 0 2"
    by (simp add: stub_greedy_capped final_state_def stub_tokenizer_simps)
  with a show ?thesis by blast
qed

theorem negative_max_length_counterexample:
  "generate_run stub_model stub_tokenizer 0 None (- 1) stub_rng = Inr (init_state stub_tokenizer)
   \<and> gen_ids (init_state stub_tokenizer :: nat loop_state) = []
   \<and> \<not> int (length (gen_ids (init_state stub_tokenizer :: nat loop_state))) \<le> - 1"
  by (simp add: generate_run_def loop_exit init_state_def)

subsection \<open>Top-k containment\<close>




subsection \<open>No validation of the configuration\<close>




subsection \<open>Determinism at temperature 0\<close>

text \<open>
  Claim C6. With a temperature equal to 0, two calls with the same model, tokenizer and
  arguments return the same result: the embedded function is a function of these and of
  the sequence of random draws, and at temperature 0 the result is the same for any two
  sequences of draws.
\<close>

theorem greedy_two_runs_agree:
  "temperature = 0 \<Longrightarrow>
     generate model tokenizer temperature top_k max_length rng
       = generate model tokenizer temperature top_k max_length rng'"
  by (simp add: generate_def generate_run_greedy [of 0 0 model tokenizer top_k max_length rng top_k rng'])

theorem greedy_two_runs_witness:
  "generate stub_model stub_tokenizer 0 (Some 2) 10 stub_rng
     = generate stub_model stub_tokenizer 0 (Some 2) 10 (\<lambda>n. 1 / 2)"
  using greedy_two_runs_agree [OF refl, of stub_model stub_tokenizer "Some 2" 10 stub_rng "\<lambda>n. 1 / 2"]
  by simp

subsection \<open>A cap of zero\<close>

text \<open>
  Claim C7. For every call with \<open>max_length = 0\<close>, \<open>generate\<close> returns what the tokenizer
  decodes the empty sequence of ids to, which is the empty string for a tokenizer that
  decodes no ids to no text, and the model is never called.
\<close>

theorem zero_max_length_returns_empty:
  "max_length = 0 \<Longrightarrow> decode tokenizer [] = [] \<Longrightarrow>
     generate model tokenizer temperature top_k max_length rng = Inr []
     \<and> (\<exists>s. generate_run model tokenizer temperature top_k max_length rng = Inr s
            \<and> calls s = [])"
  by (simp add: generate_def generate_run_def init_state_def loop_exit)

theorem zero_max_length_witness:
  "decode stub_tokenizer [] = []
   \<and> generate stub_model stub_tokenizer 1 None 0 stub_rng = Inr []"
proof -
  have d: "decode stub_tokenizer [] = []" by (simp add: stub_tokenizer_def stub_decode_def)
  from zero_max_length_returns_empty [OF refl d, of stub_model 1 None stub_rng] d
  show ?thesis by simp
qed

subsection \<open>What the loop reads of the model, and what it feeds it\<close>



subsection \<open>The choice of the branch\<close>



subsection \<open>A cap that is zero or negative\<close>

text \<open>
  Claim C10. For every call with \<open>max_length \<le> 0\<close>, negative values included,
  \<open>generate\<close> raises no error, calls the model zero times (the log of model calls of the
  final state is empty, and so is the count of random draws) and returns the decoding of
  the empty sequence of ids.
\<close>

theorem nonpositive_max_length_decodes_empty:
  "max_length \<le> 0 \<Longrightarrow>
     generate model tokenizer temperature top_k max_length rng = Inr (decode tokenizer [])
     \<and> (\<exists>s. generate_run model tokenizer temperature top_k max_length rng = Inr s
            \<and> calls s = [] \<and> draws s = 0 \<and> gen_ids s = [])"
  by (simp add: generate_def generate_run_def init_state_def loop_exit)

theorem nonpositive_max_length_witness:
  "(- 3 :: int) \<le> 0
   \<and> generate stub_model stub_tokenizer 1 (Some 2) (- 3) stub_rng = Inr (stub_decode [])"
  using nonpositive_max_length_decodes_empty [of "- 3" stub_model stub_tokenizer 1 "Some 2" stub_rng]
  by (simp add: stub_tokenizer_def)

end
